theory Spec2Isabelle
  imports Main "HOL-Library.Word"
begin

unbundle bit_operations_syntax

section \<open>Log classes of pgdummy.c\<close>

text \<open>
  The class names accepted in the \<^verbatim>\<open>pgaudit.log\<close> setting (the \<^verbatim>\<open>CLASS_*\<close> macros) and the
  bits they select (the \<^verbatim>\<open>LOG_*\<close> macros). The bitmap is a C \<^verbatim>\<open>int\<close>: a 32-bit word here,
  \<^verbatim>\<open>LOG_ALL\<close> being the word with every bit set.
\<close>

definition CLASS_DDL :: string where "CLASS_DDL = ''DDL''"
definition CLASS_FUNCTION :: string where "CLASS_FUNCTION = ''FUNCTION''"
definition CLASS_MISC :: string where "CLASS_MISC = ''MISC''"
definition CLASS_MISC_SET :: string where "CLASS_MISC_SET = ''MISC_SET''"
definition CLASS_READ :: string where "CLASS_READ = ''READ''"
definition CLASS_ROLE :: string where "CLASS_ROLE = ''ROLE''"
definition CLASS_WRITE :: string where "CLASS_WRITE = ''WRITE''"
definition CLASS_NONE :: string where "CLASS_NONE = ''NONE''"
definition CLASS_ALL :: string where "CLASS_ALL = ''ALL''"

definition LOG_DDL :: "32 word" where "LOG_DDL = push_bit 0 1"
definition LOG_FUNCTION :: "32 word" where "LOG_FUNCTION = push_bit 1 1"
definition LOG_MISC :: "32 word" where "LOG_MISC = push_bit 2 1"
definition LOG_READ :: "32 word" where "LOG_READ = push_bit 3 1"
definition LOG_ROLE :: "32 word" where "LOG_ROLE = push_bit 4 1"
definition LOG_WRITE :: "32 word" where "LOG_WRITE = push_bit 5 1"
definition LOG_MISC_SET :: "32 word" where "LOG_MISC_SET = push_bit 6 1"
definition LOG_NONE :: "32 word" where "LOG_NONE = 0"
definition LOG_ALL :: "32 word" where "LOG_ALL = 0xFFFFFFFF"

section \<open>The module's variables\<close>

text \<open>
  The three file-level variables: the bitmap of selected classes, the string the host
  keeps for \<^verbatim>\<open>pgaudit.log\<close> (a \<^verbatim>\<open>char *\<close>, possibly null) and the boolean of
  \<^verbatim>\<open>pgaudit.log_catalog\<close>, with the initial values of their declarations.
\<close>

record guc_vars =
  auditLogBitmap :: "32 word"
  auditLog :: "string option"
  auditLogCatalog :: bool

definition initial_vars :: guc_vars where
  "initial_vars = \<lparr>auditLogBitmap = LOG_NONE, auditLog = None, auditLogCatalog = True\<rparr>"

section \<open>Functions of the host that the check hook calls\<close>

text \<open>
  \<^verbatim>\<open>check_pgaudit_log\<close> calls \<^verbatim>\<open>pstrdup\<close>, \<^verbatim>\<open>SplitIdentifierString\<close> and \<^verbatim>\<open>pg_strcasecmp\<close>
  of the PostgreSQL server. They are not defined in pgdummy.c; the definitions of this section
  follow the server's implementation of them (\<^verbatim>\<open>utils/adt/varlena.c\<close>, \<^verbatim>\<open>parser/scansup.c\<close>,
  \<^verbatim>\<open>port/pgstrcasecmp.c\<close>), for the C locale and a single-byte encoding: a byte with the high
  bit set is no upper-case letter, and an identifier is cut after \<^verbatim>\<open>NAMEDATALEN - 1\<close> bytes.
  A C string ends at its first NUL byte; a \<^typ>\<open>string\<close> stands for the bytes in memory.
\<close>

definition NUL :: char where "NUL = CHR 0x00"

definition dquote :: char where "dquote = CHR 0x22"

definition NAMEDATALEN :: nat where "NAMEDATALEN = 64"

text \<open>\<^verbatim>\<open>pstrdup\<close> copies the bytes up to the terminating NUL.\<close>

definition pstrdup :: "string \<Rightarrow> string" where
  "pstrdup s = takeWhile (\<lambda>c. c \<noteq> NUL) s"

text \<open>\<^verbatim>\<open>isspace\<close> in the C locale: space, and the bytes from \<^verbatim>\<open>\t\<close> (9) to \<^verbatim>\<open>\r\<close> (13).\<close>

definition isspace :: "char \<Rightarrow> bool" where
  "isspace c = (let n = (of_char c :: nat) in n = 32 \<or> (9 \<le> n \<and> n \<le> 13))"

text \<open>The case folding of both \<^verbatim>\<open>pg_strcasecmp\<close> and \<^verbatim>\<open>downcase_truncate_identifier\<close>:
  \<^verbatim>\<open>if (ch >= 'A' && ch <= 'Z') ch += 'a' - 'A';\<close>\<close>

definition pg_tolower :: "char \<Rightarrow> char" where
  "pg_tolower c =
     (let n = (of_char c :: nat) in if 65 \<le> n \<and> n \<le> 90 then char_of (n + 32) else c)"

text \<open>
  \<^verbatim>\<open>pg_strcasecmp\<close> reads one byte of each string per round (NUL when the string has ended),
  folds them when they differ, returns the difference of the folded bytes when that is not
  zero, and returns 0 when it has read the NUL of the first string.
\<close>

definition byte_at :: "string \<Rightarrow> char" where
  "byte_at s = (case s of [] \<Rightarrow> NUL | c # _ \<Rightarrow> c)"

fun pg_strcasecmp :: "string \<Rightarrow> string \<Rightarrow> int" where
  "pg_strcasecmp [] s2 =
     (if pg_tolower NUL \<noteq> pg_tolower (byte_at s2)
      then of_char (pg_tolower NUL) - of_char (pg_tolower (byte_at s2))
      else 0)"
| "pg_strcasecmp (c1 # s1) s2 =
     (if pg_tolower c1 \<noteq> pg_tolower (byte_at s2)
      then of_char (pg_tolower c1) - of_char (pg_tolower (byte_at s2))
      else if c1 = NUL then 0
      else pg_strcasecmp s1 (tl s2))"

definition truncate_identifier :: "string \<Rightarrow> string" where
  "truncate_identifier ident =
     (if length ident \<ge> NAMEDATALEN then take (NAMEDATALEN - 1) ident else ident)"

definition downcase_truncate_identifier :: "string \<Rightarrow> string" where
  "downcase_truncate_identifier ident = truncate_identifier (map pg_tolower ident)"

text \<open>
  A quoted name of \<^verbatim>\<open>SplitIdentifierString\<close>, read after its opening quote: two adjacent
  quotes stand for one, a single quote ends the name, and a name with no closing quote is
  an error. The result is the name and the text after the closing quote.
\<close>

fun scan_quoted :: "string \<Rightarrow> (string \<times> string) option" where
  "scan_quoted [] = None"
| "scan_quoted [c] = (if c = dquote then Some ([], []) else None)"
| "scan_quoted (c # d # ds) =
     (if c = dquote then
        (if d = dquote then map_option (apfst (Cons dquote)) (scan_quoted ds)
         else Some ([], d # ds))
      else map_option (apfst (Cons c)) (scan_quoted (d # ds)))"

text \<open>
  One name: quoted (kept as written), or unquoted, extending to the separator, to white space
  or to the end, not empty, and folded to lower case.
\<close>

definition scan_name :: "char \<Rightarrow> string \<Rightarrow> (string \<times> string) option" where
  "scan_name separator s =
     (case s of
        [] \<Rightarrow> None
      | c # cs \<Rightarrow>
          if c = dquote then scan_quoted cs
          else (let curname = takeWhile (\<lambda>x. \<not> (x = separator \<or> isspace x)) s;
                    nextp = dropWhile (\<lambda>x. \<not> (x = separator \<or> isspace x)) s
                in if curname = [] then None
                   else Some (downcase_truncate_identifier curname, nextp)))"

text \<open>
  The loop of \<^verbatim>\<open>SplitIdentifierString\<close>, entered at the start of a name: after the name and
  the white space behind it comes the separator (and another name), or the end of the string;
  anything else is a syntax error. Each name is truncated and appended to the list.
\<close>

function split_names :: "char \<Rightarrow> string \<Rightarrow> string list option" where
  "split_names separator s =
     (case scan_name separator s of
        None \<Rightarrow> None
      | Some (curname, nextp) \<Rightarrow>
          (case dropWhile isspace nextp of
             [] \<Rightarrow> Some [truncate_identifier curname]
           | c # cs \<Rightarrow>
               if c = separator
               then map_option (Cons (truncate_identifier curname))
                      (split_names separator (dropWhile isspace cs))
               else None))"
  by pat_completeness auto
termination
proof (relation "measure (\<lambda>(separator, s). length s)")
  show "wf (measure (\<lambda>(separator :: char, s :: string). length s))"
    by simp
next
  fix separator :: char and s curname nextp cs :: string and x2 and c :: char
  assume sc: "scan_name separator s = Some x2"
    and x2: "(curname, nextp) = x2"
    and dw: "dropWhile isspace nextp = c # cs"
  have quoted: "length r \<le> length t" if "scan_quoted t = Some (n, r)" for t n r
    using that
  proof (induction t arbitrary: n r rule: scan_quoted.induct)
    case 1
    then show ?case by simp
  next
    case (2 c)
    then show ?case by (simp split: if_splits)
  next
    case (3 c d ds)
    then show ?case
      by (fastforce split: if_splits simp: apfst_def map_prod_def)
  qed
  have "length nextp \<le> length s"
  proof (cases s)
    case Nil
    with sc show ?thesis by (simp add: scan_name_def)
  next
    case (Cons a as)
    show ?thesis
    proof (cases "a = dquote")
      case True
      with sc x2 Cons have "scan_quoted as = Some (curname, nextp)"
        by (simp add: scan_name_def)
      from quoted [OF this] Cons show ?thesis by simp
    next
      case False
      with sc x2 Cons
      have "nextp = dropWhile (\<lambda>x. \<not> (x = separator \<or> isspace x)) s"
        by (auto simp: scan_name_def Let_def split: if_splits)
      then show ?thesis by (simp add: length_dropWhile_le)
    qed
  qed
  moreover have "length (dropWhile isspace nextp) \<le> length nextp"
    by (rule length_dropWhile_le)
  moreover have "length (dropWhile isspace cs) \<le> length cs"
    by (rule length_dropWhile_le)
  ultimately show "((separator, dropWhile isspace cs), (separator, s))
      \<in> measure (\<lambda>(separator, s). length s)"
    using dw by simp
qed

text \<open>
  \<^verbatim>\<open>SplitIdentifierString\<close>: white space in front is skipped, an empty string is allowed and
  gives the empty list, and otherwise the loop runs. \<^const>\<open>None\<close> is the result \<^verbatim>\<open>false\<close>.
\<close>

definition SplitIdentifierString :: "string \<Rightarrow> char \<Rightarrow> string list option" where
  "SplitIdentifierString rawstring separator =
     (case dropWhile isspace rawstring of
        [] \<Rightarrow> Some []
      | c # cs \<Rightarrow> split_names separator (c # cs))"

section \<open>The check hook and the assign hook\<close>

text \<open>The chain of comparisons of \<^verbatim>\<open>check_pgaudit_log\<close>: the bits of a token, or \<^const>\<open>None\<close>
  for the final \<^verbatim>\<open>else\<close> branch, where the token is not recognised.\<close>

definition token_class :: "string \<Rightarrow> 32 word option" where
  "token_class token =
     (if pg_strcasecmp token CLASS_NONE = 0 then Some LOG_NONE
      else if pg_strcasecmp token CLASS_ALL = 0 then Some LOG_ALL
      else if pg_strcasecmp token CLASS_DDL = 0 then Some LOG_DDL
      else if pg_strcasecmp token CLASS_FUNCTION = 0 then Some LOG_FUNCTION
      else if pg_strcasecmp token CLASS_MISC = 0 then Some (LOG_MISC OR LOG_MISC_SET)
      else if pg_strcasecmp token CLASS_MISC_SET = 0 then Some LOG_MISC_SET
      else if pg_strcasecmp token CLASS_READ = 0 then Some LOG_READ
      else if pg_strcasecmp token CLASS_ROLE = 0 then Some LOG_ROLE
      else if pg_strcasecmp token CLASS_WRITE = 0 then Some LOG_WRITE
      else None)"

text \<open>The head of the loop body: a token that starts with \<^verbatim>\<open>-\<close> is subtractive, and the
  comparisons see the text behind the sign.\<close>

definition is_subtract :: "string \<Rightarrow> bool" where
  "is_subtract token = (byte_at token = CHR ''-'')"

definition strip_sign :: "string \<Rightarrow> string" where
  "strip_sign token = (if is_subtract token then tl token else token)"

text \<open>
  The \<^verbatim>\<open>foreach\<close> loop over the tokens, on the value of \<^verbatim>\<open>*flags\<close>: \<^const>\<open>None\<close> when the loop
  leaves through the \<^verbatim>\<open>else\<close> branch, the final bitmap otherwise.
\<close>

fun fold_tokens :: "string list \<Rightarrow> 32 word \<Rightarrow> 32 word option" where
  "fold_tokens [] flags = Some flags"
| "fold_tokens (token # rest) flags =
     (case token_class (strip_sign token) of
        None \<Rightarrow> None
      | Some class \<Rightarrow>
          fold_tokens rest
            (if is_subtract token then flags AND NOT class else flags OR class))"

text \<open>
  What a call of the check hook leaves behind: its return value, the pointer \<^verbatim>\<open>*extra\<close>
  (\<^const>\<open>None\<close> for a null pointer, otherwise the \<^verbatim>\<open>int\<close> it points to), the detail message
  the call has set with \<^verbatim>\<open>GUC_check_errdetail\<close> (if any), and the module's variables.
\<close>

record check_outcome =
  returned :: bool
  extra_after :: "32 word option"
  errdetail :: "string option"
  vars_after :: guc_vars

text \<open>
  \<^verbatim>\<open>check_pgaudit_log\<close>. \<open>malloc_ok\<close> says whether \<^verbatim>\<open>malloc\<close> returns memory; \<open>extra\<close> is
  \<^verbatim>\<open>*extra\<close> at the call. (The \<^verbatim>\<open>source\<close> argument is not used by the function.)
\<close>

definition check_pgaudit_log ::
  "bool \<Rightarrow> string \<Rightarrow> 32 word option \<Rightarrow> guc_vars \<Rightarrow> check_outcome" where
  "check_pgaudit_log malloc_ok newVal extra g =
     (let rawVal = pstrdup newVal in
      case SplitIdentifierString rawVal CHR '','' of
        None \<Rightarrow>
          \<lparr>returned = False, extra_after = extra,
           errdetail = Some ''List syntax is invalid'', vars_after = g\<rparr>
      | Some flagRawList \<Rightarrow>
          if \<not> malloc_ok
          then \<lparr>returned = False, extra_after = extra, errdetail = None, vars_after = g\<rparr>
          else
            (case fold_tokens flagRawList 0 of
               None \<Rightarrow>
                 \<lparr>returned = False, extra_after = extra, errdetail = None, vars_after = g\<rparr>
             | Some flags \<Rightarrow>
                 \<lparr>returned = True, extra_after = Some flags, errdetail = None,
                  vars_after = g\<rparr>))"

text \<open>\<^verbatim>\<open>assign_pgaudit_log\<close>: the bitmap is set from \<^verbatim>\<open>extra\<close> when that is not null.\<close>

definition assign_pgaudit_log :: "string \<Rightarrow> 32 word option \<Rightarrow> guc_vars \<Rightarrow> guc_vars" where
  "assign_pgaudit_log newVal extra g =
     (case extra of
        None \<Rightarrow> g
      | Some flags \<Rightarrow> g\<lparr>auditLogBitmap := flags\<rparr>)"

section \<open>Notions used in the statements\<close>

text \<open>The nine names that the chain of comparisons knows, in the order of the chain.\<close>

definition class_names :: "string list" where
  "class_names = [CLASS_NONE, CLASS_ALL, CLASS_DDL, CLASS_FUNCTION, CLASS_MISC,
                  CLASS_MISC_SET, CLASS_READ, CLASS_ROLE, CLASS_WRITE]"

text \<open>
  Upper-casing of ASCII letters. A spelling of a name in mixed case is a string that this
  function maps to the name.
\<close>

definition ascii_upper :: "char \<Rightarrow> char" where
  "ascii_upper c =
     (let n = (of_char c :: nat) in if 97 \<le> n \<and> n \<le> 122 then char_of (n - 32) else c)"

text \<open>The bytes of such spellings: ASCII letters and the underscore.\<close>

definition ident_char :: "char \<Rightarrow> bool" where
  "ident_char c =
     (let n = (of_char c :: nat)
      in n = 95 \<or> (65 \<le> n \<and> n \<le> 90) \<or> (97 \<le> n \<and> n \<le> 122))"

definition upper_or_underscore :: "char \<Rightarrow> bool" where
  "upper_or_underscore c = (let n = (of_char c :: nat) in n = 95 \<or> (65 \<le> n \<and> n \<le> 90))"

text \<open>A token without its negation marker: the text behind a leading \<^verbatim>\<open>-\<close>, if there is one.\<close>

definition without_marker :: "string \<Rightarrow> string" where
  "without_marker token = (if take 1 token = ''-'' then drop 1 token else token)"

section \<open>Case folding and comparison\<close>

lemma of_char_pg_tolower:
  "(of_char (pg_tolower c) :: nat) =
     (if 65 \<le> (of_char c :: nat) \<and> (of_char c :: nat) \<le> 90 then of_char c + 32
      else of_char c)"
  by (simp add: pg_tolower_def Let_def)

lemma pg_tolower_NUL: "pg_tolower NUL = NUL"
  by (simp add: pg_tolower_def NUL_def)

lemma pg_tolower_eq_NUL: "pg_tolower c = NUL \<longleftrightarrow> c = NUL"
proof -
  have "pg_tolower c = NUL \<longleftrightarrow> (of_char (pg_tolower c) :: nat) = of_char NUL"
    by simp
  also have "\<dots> \<longleftrightarrow> (of_char c :: nat) = of_char NUL"
    by (simp only: of_char_pg_tolower) (simp add: NUL_def)
  finally show ?thesis by simp
qed

lemma pg_tolower_idem: "pg_tolower (pg_tolower c) = pg_tolower c"
proof -
  have "(of_char (pg_tolower (pg_tolower c)) :: nat) = of_char (pg_tolower c)"
    by (simp add: of_char_pg_tolower)
  then show ?thesis by simp
qed

lemma pstrdup_Nil_iff: "pstrdup s = [] \<longleftrightarrow> byte_at s = NUL"
  by (cases s) (simp_all add: pstrdup_def byte_at_def)

lemma pstrdup_map_pg_tolower: "pstrdup (map pg_tolower s) = map pg_tolower (pstrdup s)"
  by (induction s) (auto simp: pstrdup_def pg_tolower_eq_NUL)

text \<open>Two strings compare equal exactly when their C strings agree after case folding.\<close>

lemma pg_strcasecmp_eq_0_iff:
  "pg_strcasecmp s1 s2 = 0 \<longleftrightarrow> map pg_tolower (pstrdup s1) = map pg_tolower (pstrdup s2)"
proof (induction s1 s2 rule: pg_strcasecmp.induct)
  case (1 s2)
  have "pg_strcasecmp [] s2 = 0 \<longleftrightarrow> byte_at s2 = NUL"
    using pg_tolower_eq_NUL [of "byte_at s2"] by (auto simp: pg_tolower_NUL)
  then show ?case
    using pstrdup_Nil_iff [of s2] by (auto simp: pstrdup_def)
next
  case (2 c1 s1 s2)
  show ?case
  proof (cases s2)
    case Nil
    then show ?thesis
      using pg_tolower_eq_NUL [of c1]
      by (auto simp: byte_at_def pstrdup_def pg_tolower_NUL)
  next
    case (Cons c2 t2)
    show ?thesis
    proof (cases "pg_tolower c1 = pg_tolower c2")
      case False
      with Cons show ?thesis
        using pg_tolower_eq_NUL [of c1] pg_tolower_eq_NUL [of c2]
        by (auto simp: byte_at_def pstrdup_def)
    next
      case True
      note eq = this
      show ?thesis
      proof (cases "c1 = NUL")
        case True
        with eq have "c2 = NUL"
          using pg_tolower_eq_NUL [of c2] by (simp add: pg_tolower_NUL)
        with True Cons show ?thesis
          by (simp add: byte_at_def pstrdup_def pg_tolower_NUL)
      next
        case False
        with eq have c2: "c2 \<noteq> NUL"
          using pg_tolower_eq_NUL [of c1] pg_tolower_eq_NUL [of c2] by auto
        from False eq Cons have "pg_tolower c1 = pg_tolower (byte_at s2)" "c1 \<noteq> NUL"
          by (simp_all add: byte_at_def)
        from 2 [OF _ this(2)] this(1)
        have "pg_strcasecmp s1 (tl s2) = 0 \<longleftrightarrow>
              map pg_tolower (pstrdup s1) = map pg_tolower (pstrdup (tl s2))"
          by simp
        with False eq Cons c2 show ?thesis
          by (simp add: byte_at_def pstrdup_def)
      qed
    qed
  qed
qed

lemma token_class_cong:
  "map pg_tolower (pstrdup a) = map pg_tolower (pstrdup b) \<Longrightarrow> token_class a = token_class b"
  by (simp add: token_class_def pg_strcasecmp_eq_0_iff)

lemma token_class_map_pg_tolower: "token_class (map pg_tolower s) = token_class s"
  by (rule token_class_cong) (simp add: pstrdup_map_pg_tolower pg_tolower_idem)

section \<open>The loop over the tokens\<close>

lemma fold_tokens_append:
  "fold_tokens (ts @ us) flags =
     (case fold_tokens ts flags of None \<Rightarrow> None | Some f \<Rightarrow> fold_tokens us f)"
  by (induction ts arbitrary: flags) (simp_all split: option.splits)

lemma fold_tokens_unknown:
  "token \<in> set tokens \<Longrightarrow> token_class (strip_sign token) = None \<Longrightarrow>
   fold_tokens tokens flags = None"
  by (induction tokens arbitrary: flags) (auto split: option.splits)

lemma none_step:
  "fold_tokens (''none'' # rest) flags = fold_tokens rest flags"
  "fold_tokens (''-none'' # rest) flags = fold_tokens rest flags"
proof -
  have a: "token_class (strip_sign ''none'') = Some LOG_NONE" "\<not> is_subtract ''none''"
    by code_simp+
  have b: "token_class (strip_sign ''-none'') = Some LOG_NONE" "is_subtract ''-none''"
    by code_simp+
  show "fold_tokens (''none'' # rest) flags = fold_tokens rest flags"
    by (simp add: a LOG_NONE_def)
  show "fold_tokens (''-none'' # rest) flags = fold_tokens rest flags"
    by (simp add: b LOG_NONE_def)
qed




section \<open>Tokens made of letters\<close>

lemma ident_char_facts:
  assumes "ident_char c"
  shows "\<not> isspace c" "c \<noteq> CHR '',''" "c \<noteq> dquote" "c \<noteq> NUL" "c \<noteq> CHR ''-''"
    "ident_char (pg_tolower c)"
proof -
  let ?n = "of_char c :: nat"
  from assms have n: "?n = 95 \<or> (65 \<le> ?n \<and> ?n \<le> 90) \<or> (97 \<le> ?n \<and> ?n \<le> 122)"
    by (simp add: ident_char_def Let_def)
  then show "\<not> isspace c" by (auto simp: isspace_def Let_def)
  from n show "c \<noteq> CHR '',''" by auto
  from n show "c \<noteq> dquote" by (auto simp: dquote_def)
  from n show "c \<noteq> NUL" by (auto simp: NUL_def)
  from n show "c \<noteq> CHR ''-''" by auto
  from n show "ident_char (pg_tolower c)"
    unfolding ident_char_def Let_def of_char_pg_tolower by auto
qed

lemma pstrdup_ident: "list_all ident_char s \<Longrightarrow> pstrdup s = s"
  by (induction s) (auto simp: pstrdup_def ident_char_facts)

text \<open>A string of letters, shorter than a name may be, is one token: itself in lower case.\<close>

lemma SplitIdentifierString_ident:
  assumes ne: "s \<noteq> []" and id: "list_all ident_char s" and len: "length s < NAMEDATALEN"
  shows "SplitIdentifierString s CHR '','' = Some [map pg_tolower s]"
proof -
  from ne obtain c cs where s: "s = c # cs" by (cases s) auto
  with id have c: "ident_char c" by simp
  have all: "\<forall>x\<in>set s. \<not> (x = CHR '','' \<or> isspace x)"
    using id by (auto simp: list_all_iff ident_char_facts)
  have tw: "takeWhile (\<lambda>x. \<not> (x = CHR '','' \<or> isspace x)) s = s"
    using all by (simp add: takeWhile_eq_all_conv)
  have dw: "dropWhile (\<lambda>x. \<not> (x = CHR '','' \<or> isspace x)) s = []"
    using all by simp
  have "scan_name CHR '','' s =
      (let curname = takeWhile (\<lambda>x. \<not> (x = CHR '','' \<or> isspace x)) s;
           nextp = dropWhile (\<lambda>x. \<not> (x = CHR '','' \<or> isspace x)) s
       in if curname = [] then None
          else Some (downcase_truncate_identifier curname, nextp))"
    using ident_char_facts(3) [OF c] by (simp only: scan_name_def s list.case if_False)
  then have sn: "scan_name CHR '','' s = Some (map pg_tolower s, [])"
    using ne len
    by (simp only: tw dw Let_def)
      (simp add: downcase_truncate_identifier_def truncate_identifier_def)
  have "split_names CHR '','' s = Some [map pg_tolower s]"
    using len by (subst split_names.simps) (simp add: sn truncate_identifier_def)
  moreover have "dropWhile isspace s = s"
    using c s by (simp add: ident_char_facts)
  ultimately show ?thesis
    using s by (simp add: SplitIdentifierString_def)
qed

lemma check_pgaudit_log_ident:
  assumes ne: "s \<noteq> []" and id: "list_all ident_char s" and len: "length s < NAMEDATALEN"
  shows "check_pgaudit_log malloc_ok s extra g =
     (case (if malloc_ok then token_class s else None) of
        None \<Rightarrow> \<lparr>returned = False, extra_after = extra, errdetail = None, vars_after = g\<rparr>
      | Some class \<Rightarrow>
          \<lparr>returned = True, extra_after = Some class, errdetail = None, vars_after = g\<rparr>)"
proof -
  from ne obtain c cs where s: "s = c # cs" by (cases s) auto
  with id have "ident_char c" by simp
  then have "pg_tolower c \<noteq> CHR ''-''"
    using ident_char_facts(5) [of "pg_tolower c"] ident_char_facts(6) [of c] by simp
  then have ns: "\<not> is_subtract (map pg_tolower s)"
    by (simp add: is_subtract_def byte_at_def s)
  then have st: "strip_sign (map pg_tolower s) = map pg_tolower s"
    by (simp add: strip_sign_def)
  show ?thesis
    using ns
    by (simp add: check_pgaudit_log_def pstrdup_ident [OF id]
        SplitIdentifierString_ident [OF ne id len] st token_class_map_pg_tolower
        split: option.splits)
qed

lemma of_char_ascii_upper:
  "(of_char (ascii_upper c) :: nat) =
     (if 97 \<le> (of_char c :: nat) \<and> (of_char c :: nat) \<le> 122 then of_char c - 32
      else of_char c)"
proof -
  have "(of_char c :: nat) - 32 < 256"
    using nat_of_char_less_256 [of c] by arith
  then show ?thesis
    by (simp add: ascii_upper_def Let_def)
qed

lemma ascii_upper_spelling:
  assumes "upper_or_underscore (ascii_upper c)"
  shows "ident_char c" "pg_tolower c = pg_tolower (ascii_upper c)"
proof -
  from assms show "ident_char c"
    unfolding upper_or_underscore_def ident_char_def Let_def of_char_ascii_upper
    by (auto split: if_splits)
  from assms have "(of_char (pg_tolower c) :: nat) = of_char (pg_tolower (ascii_upper c))"
    unfolding upper_or_underscore_def Let_def of_char_pg_tolower of_char_ascii_upper
    by (auto split: if_splits)
  then show "pg_tolower c = pg_tolower (ascii_upper c)"
    by (simp only: of_char_eq_iff)
qed

lemma spelling_facts:
  assumes "list_all upper_or_underscore (map ascii_upper s)"
  shows "list_all ident_char s" "map pg_tolower s = map pg_tolower (map ascii_upper s)"
  using assms by (induction s) (auto simp: ascii_upper_spelling)

lemma upper_or_underscore_ident: "upper_or_underscore c \<Longrightarrow> ident_char c"
  unfolding upper_or_underscore_def ident_char_def Let_def by auto

lemma class_names_chars:
  "name \<in> set class_names \<Longrightarrow>
   list_all upper_or_underscore name \<and> name \<noteq> [] \<and> length name < NAMEDATALEN"
  by (auto simp: class_names_def CLASS_NONE_def CLASS_ALL_def CLASS_DDL_def CLASS_FUNCTION_def
      CLASS_MISC_def CLASS_MISC_SET_def CLASS_READ_def CLASS_ROLE_def CLASS_WRITE_def
      upper_or_underscore_def NAMEDATALEN_def)

lemma check_spelling:
  assumes name: "name \<in> set class_names" and sp: "map ascii_upper s = name"
  shows "check_pgaudit_log malloc_ok s extra g = check_pgaudit_log malloc_ok name extra g"
proof -
  from class_names_chars [OF name]
  have u: "list_all upper_or_underscore name" and ne: "name \<noteq> []"
    and len: "length name < NAMEDATALEN"
    by simp_all
  from u sp have ids: "list_all ident_char s"
    and low: "map pg_tolower s = map pg_tolower name"
    using spelling_facts [of s] by simp_all
  from u have idn: "list_all ident_char name"
    by (induction name) (auto simp: upper_or_underscore_ident)
  from sp ne have nes: "s \<noteq> []" by auto
  from sp len have lens: "length s < NAMEDATALEN" by auto
  have "token_class s = token_class name"
    by (rule token_class_cong) (simp add: pstrdup_ident ids idn low)
  then show ?thesis
    by (simp add: check_pgaudit_log_ident [OF nes ids lens]
        check_pgaudit_log_ident [OF ne idn len])
qed

section \<open>Tokens that are none of the names\<close>

lemma strip_sign_without_marker: "strip_sign token = without_marker token"
  by (cases token) (simp_all add: strip_sign_def is_subtract_def byte_at_def without_marker_def NUL_def)

lemma pg_tolower_eq_upper:
  assumes "upper_or_underscore d" and "pg_tolower c = pg_tolower d"
  shows "ascii_upper c = d"
proof -
  from assms(2) have "(of_char (pg_tolower c) :: nat) = of_char (pg_tolower d)"
    by simp
  with assms(1) have "(of_char (ascii_upper c) :: nat) = of_char d"
    unfolding upper_or_underscore_def Let_def of_char_pg_tolower of_char_ascii_upper
    by (auto split: if_splits simp del: of_char_eq_iff)
  then show ?thesis by (simp only: of_char_eq_iff)
qed

lemma map_pg_tolower_eq_upper:
  "list_all upper_or_underscore name \<Longrightarrow> map pg_tolower t = map pg_tolower name \<Longrightarrow>
   map ascii_upper t = name"
proof (induction t arbitrary: name)
  case Nil
  then show ?case by simp
next
  case (Cons c t)
  then obtain d ds where n: "name = d # ds" by (cases name) auto
  with Cons show ?case by (auto simp: pg_tolower_eq_upper)
qed

lemma pstrdup_no_NUL: "NUL \<notin> set s \<Longrightarrow> pstrdup s = s"
  by (induction s) (auto simp: pstrdup_def)

lemma NUL_notin_pstrdup: "NUL \<notin> set (pstrdup s)"
  unfolding pstrdup_def by (induction s) auto

lemma class_names_no_NUL: "name \<in> set class_names \<Longrightarrow> NUL \<notin> set name"
  using class_names_chars [of name] ident_char_facts(4) upper_or_underscore_ident
  by (auto simp: list_all_iff)

text \<open>A token without NUL gets no class exactly when it spells none of the nine names.\<close>

lemma token_class_None_iff:
  assumes "NUL \<notin> set t"
  shows "token_class t = None \<longleftrightarrow> map ascii_upper t \<notin> set class_names"
proof -
  have eq: "pg_strcasecmp t name = 0 \<longleftrightarrow> map ascii_upper t = name"
    if "name \<in> set class_names" for name
  proof -
    from class_names_chars [OF that] have u: "list_all upper_or_underscore name" by simp
    have "pg_strcasecmp t name = 0 \<longleftrightarrow> map pg_tolower t = map pg_tolower name"
      by (simp add: pg_strcasecmp_eq_0_iff pstrdup_no_NUL assms class_names_no_NUL [OF that])
    also have "\<dots> \<longleftrightarrow> map ascii_upper t = name"
      using map_pg_tolower_eq_upper [OF u, of t] spelling_facts(2) [of t] u by auto
    finally show ?thesis .
  qed
  have "token_class t = None \<longleftrightarrow> (\<forall>name\<in>set class_names. pg_strcasecmp t name \<noteq> 0)"
    by (simp add: token_class_def class_names_def)
  also have "\<dots> \<longleftrightarrow> (\<forall>name\<in>set class_names. map ascii_upper t \<noteq> name)"
    using eq by simp
  finally show ?thesis by auto
qed

lemma scan_quoted_no_NUL:
  "NUL \<notin> set t \<Longrightarrow> scan_quoted t = Some (n, r) \<Longrightarrow> NUL \<notin> set n \<and> NUL \<notin> set r"
proof (induction t arbitrary: n r rule: scan_quoted.induct)
  case 1
  then show ?case by simp
next
  case (2 c)
  then show ?case by (simp split: if_splits)
next
  case (3 c d ds)
  then show ?case
    by (fastforce split: if_splits simp: dquote_def NUL_def)
qed

lemma truncate_identifier_subset: "set (truncate_identifier s) \<subseteq> set s"
  by (auto simp: truncate_identifier_def dest: in_set_takeD)

lemma scan_name_no_NUL:
  assumes "NUL \<notin> set s" and "scan_name sep s = Some (n, r)"
  shows "NUL \<notin> set n \<and> NUL \<notin> set r"
proof (cases s)
  case Nil
  with assms show ?thesis by (simp add: scan_name_def)
next
  case (Cons c cs)
  show ?thesis
  proof (cases "c = dquote")
    case True
    with assms Cons have "scan_quoted cs = Some (n, r)" "NUL \<notin> set cs"
      by (simp_all add: scan_name_def)
    then show ?thesis using scan_quoted_no_NUL by blast
  next
    case False
    let ?P = "\<lambda>x. \<not> (x = sep \<or> isspace x)"
    from False assms(2) Cons
    have n: "n = downcase_truncate_identifier (takeWhile ?P s)" and r: "r = dropWhile ?P s"
      by (auto simp: scan_name_def Let_def split: if_splits)
    have "set n \<subseteq> pg_tolower ` set (takeWhile ?P s)"
      unfolding n downcase_truncate_identifier_def
      using truncate_identifier_subset [of "map pg_tolower (takeWhile ?P s)"] by simp
    moreover have "set (takeWhile ?P s) \<subseteq> set s"
      by (auto dest: set_takeWhileD)
    moreover have "set r \<subseteq> set s"
      unfolding r by (auto dest: set_dropWhileD)
    ultimately have "set n \<subseteq> pg_tolower ` set s" and "set r \<subseteq> set s"
      by auto
    moreover have "NUL \<notin> pg_tolower ` set s"
    proof
      assume "NUL \<in> pg_tolower ` set s"
      then obtain x where "x \<in> set s" and "pg_tolower x = NUL"
        by auto
      with assms(1) show False
        by (simp add: pg_tolower_eq_NUL)
    qed
    ultimately show ?thesis
      using assms(1) by auto
  qed
qed

lemma split_names_no_NUL:
  "NUL \<notin> set s \<Longrightarrow> split_names sep s = Some tokens \<Longrightarrow> t \<in> set tokens \<Longrightarrow> NUL \<notin> set t"
proof (induction sep s arbitrary: tokens rule: split_names.induct)
  case (1 separator s)
  from "1.prems"(2) obtain n r where sn: "scan_name separator s = Some (n, r)"
    by (subst (asm) split_names.simps) (auto split: option.splits)
  from scan_name_no_NUL [OF "1.prems"(1) sn] have nn: "NUL \<notin> set n" and nr: "NUL \<notin> set r"
    by simp_all
  have nt: "NUL \<notin> set (truncate_identifier n)"
    using nn truncate_identifier_subset [of n] by auto
  show ?case
  proof (cases "dropWhile isspace r")
    case Nil
    with "1.prems"(2) sn have "tokens = [truncate_identifier n]"
      by (subst (asm) split_names.simps) simp
    with "1.prems"(3) nt show ?thesis by simp
  next
    case (Cons c cs)
    with "1.prems"(2) sn obtain rest where c: "c = separator"
      and rest: "split_names separator (dropWhile isspace cs) = Some rest"
      and tokens: "tokens = truncate_identifier n # rest"
      by (subst (asm) split_names.simps) (auto split: if_splits)
    have "set cs \<subseteq> set r"
      using set_dropWhileD [of _ isspace r] Cons by auto
    then have "NUL \<notin> set (dropWhile isspace cs)"
      using nr set_dropWhileD [of NUL isspace cs] by auto
    from "1.IH" [OF sn refl Cons c this rest] tokens "1.prems"(3) nt
    show ?thesis by auto
  qed
qed

lemma SplitIdentifierString_no_NUL:
  assumes "NUL \<notin> set s" and "SplitIdentifierString s sep = Some tokens" and "t \<in> set tokens"
  shows "NUL \<notin> set t"
proof (cases "dropWhile isspace s")
  case Nil
  with assms show ?thesis by (simp add: SplitIdentifierString_def)
next
  case (Cons c cs)
  with assms(2) have "split_names sep (dropWhile isspace s) = Some tokens"
    by (simp add: SplitIdentifierString_def)
  moreover have "NUL \<notin> set (dropWhile isspace s)"
    using assms(1) set_dropWhileD [of NUL isspace s] by auto
  ultimately show ?thesis using assms(3) split_names_no_NUL by blast
qed

section \<open>Single settings, evaluated\<close>

lemma bits_eval:
  "LOG_DDL = 1" "LOG_FUNCTION = 2" "LOG_MISC = 4" "LOG_READ = 8" "LOG_ROLE = 16"
  "LOG_WRITE = 32" "LOG_MISC_SET = 64" "LOG_MISC OR LOG_MISC_SET = 68" "LOG_ALL = NOT 0"
  "LOG_ALL AND NOT LOG_WRITE = 0xFFFFFFDF"
  by (simp_all add: LOG_DDL_def LOG_FUNCTION_def LOG_MISC_def LOG_READ_def LOG_ROLE_def
      LOG_WRITE_def LOG_MISC_SET_def LOG_ALL_def)


lemma check_empty_eval:
  "check_pgaudit_log True '''' extra g =
     \<lparr>returned = True, extra_after = Some LOG_NONE, errdetail = None, vars_after = g\<rparr>"
  "check_pgaudit_log False '''' extra g =
     \<lparr>returned = False, extra_after = extra, errdetail = None, vars_after = g\<rparr>"
  by code_simp+

lemma check_order_eval:
  "check_pgaudit_log True ''READ,WRITE,-READ'' extra g =
     \<lparr>returned = True, extra_after = Some LOG_WRITE, errdetail = None, vars_after = g\<rparr>"
  "check_pgaudit_log True ''-READ,READ,WRITE'' extra g =
     \<lparr>returned = True, extra_after = Some (LOG_READ OR LOG_WRITE), errdetail = None,
      vars_after = g\<rparr>"
  by code_simp+

lemma check_names_eval:
  "check_pgaudit_log True ''DDL'' extra g =
     \<lparr>returned = True, extra_after = Some LOG_DDL, errdetail = None, vars_after = g\<rparr>"
  "check_pgaudit_log True ''FUNCTION'' extra g =
     \<lparr>returned = True, extra_after = Some LOG_FUNCTION, errdetail = None, vars_after = g\<rparr>"
  "check_pgaudit_log True ''MISC'' extra g =
     \<lparr>returned = True, extra_after = Some (LOG_MISC OR LOG_MISC_SET), errdetail = None,
      vars_after = g\<rparr>"
  "check_pgaudit_log True ''MISC_SET'' extra g =
     \<lparr>returned = True, extra_after = Some LOG_MISC_SET, errdetail = None, vars_after = g\<rparr>"
  "check_pgaudit_log True ''READ'' extra g =
     \<lparr>returned = True, extra_after = Some LOG_READ, errdetail = None, vars_after = g\<rparr>"
  "check_pgaudit_log True ''ROLE'' extra g =
     \<lparr>returned = True, extra_after = Some LOG_ROLE, errdetail = None, vars_after = g\<rparr>"
  "check_pgaudit_log True ''WRITE'' extra g =
     \<lparr>returned = True, extra_after = Some LOG_WRITE, errdetail = None, vars_after = g\<rparr>"
  by code_simp+

lemma check_meta_eval:
  "check_pgaudit_log True ''ALL'' extra g =
     \<lparr>returned = True, extra_after = Some LOG_ALL, errdetail = None, vars_after = g\<rparr>"
  "check_pgaudit_log True ''NONE'' extra g =
     \<lparr>returned = True, extra_after = Some LOG_NONE, errdetail = None, vars_after = g\<rparr>"
  "check_pgaudit_log True ''ALL,-WRITE'' extra g =
     \<lparr>returned = True, extra_after = Some (LOG_ALL AND NOT LOG_WRITE), errdetail = None,
      vars_after = g\<rparr>"
  "check_pgaudit_log True ''ALL,-MISC'' extra g =
     \<lparr>returned = True, extra_after = Some (LOG_ALL AND NOT (LOG_MISC OR LOG_MISC_SET)),
      errdetail = None, vars_after = g\<rparr>"
  "check_pgaudit_log True ''DDL,NONE'' extra g =
     \<lparr>returned = True, extra_after = Some LOG_DDL, errdetail = None, vars_after = g\<rparr>"
  "check_pgaudit_log True ''DDL,-NONE'' extra g =
     \<lparr>returned = True, extra_after = Some LOG_DDL, errdetail = None, vars_after = g\<rparr>"
  by code_simp+

lemma check_ddl_spellings_eval:
  "check_pgaudit_log True ''ddl'' extra g =
     \<lparr>returned = True, extra_after = Some LOG_DDL, errdetail = None, vars_after = g\<rparr>"
  "check_pgaudit_log True ''Ddl'' extra g =
     \<lparr>returned = True, extra_after = Some LOG_DDL, errdetail = None, vars_after = g\<rparr>"
  by code_simp+

section \<open>The claims\<close>

text \<open>
  In the statements below the first argument of \<^const>\<open>check_pgaudit_log\<close> is \<^const>\<open>True\<close> where the
  setting is accepted: the hook can accept a setting only when \<^verbatim>\<open>malloc\<close> has given it the
  memory for the bitmap.
\<close>

text \<open>
  C1 (as amended): the empty setting is not rejected. \<^verbatim>\<open>SplitIdentifierString\<close> allows the
  empty string and returns the empty list, the hook has no check for a list without tokens,
  the loop runs over no token, and the hook returns \<^verbatim>\<open>true\<close> with the bitmap 0
  (\<^verbatim>\<open>LOG_NONE\<close>) in \<^verbatim>\<open>*extra\<close> and with no detail message. It returns \<^verbatim>\<open>false\<close> on the empty
  setting only when \<^verbatim>\<open>malloc\<close> fails.
\<close>

theorem check_empty_setting_accepted:
  "SplitIdentifierString (pstrdup '''') CHR '','' = Some [] \<and>
   fold_tokens [] 0 = Some LOG_NONE \<and>
   check_pgaudit_log True '''' extra g =
     \<lparr>returned = True, extra_after = Some LOG_NONE, errdetail = None, vars_after = g\<rparr> \<and>
   check_pgaudit_log False '''' extra g =
     \<lparr>returned = False, extra_after = extra, errdetail = None, vars_after = g\<rparr>"
proof -
  have "SplitIdentifierString (pstrdup '''') CHR '','' = Some []"
    by code_simp
  moreover have "fold_tokens [] 0 = Some LOG_NONE"
    by (simp add: LOG_NONE_def)
  ultimately show ?thesis
    by (simp only: check_empty_eval simp_thms)
qed

text \<open>
  C1 as stated fails: on the empty setting, from the initial variables and a null \<^verbatim>\<open>*extra\<close>,
  the hook returns \<^verbatim>\<open>true\<close> and hands over the candidate 0, with no list-syntax message.
\<close>

theorem check_empty_setting_not_rejected:
  "returned (check_pgaudit_log True '''' None initial_vars) \<and>
   extra_after (check_pgaudit_log True '''' None initial_vars) = Some 0 \<and>
   errdetail (check_pgaudit_log True '''' None initial_vars) = None"
  by code_simp

text \<open>
  C2: for every setting, whatever \<^verbatim>\<open>*extra\<close> holds and whether \<^verbatim>\<open>malloc\<close> succeeds or not,
  \<^verbatim>\<open>check_pgaudit_log\<close> leaves the module's variables as they were: \<^verbatim>\<open>auditLogBitmap\<close> and
  \<^verbatim>\<open>auditLogCatalog\<close> (and \<^verbatim>\<open>auditLog\<close>) are the same after the call on every path, the three
  failing ones included.
\<close>

theorem check_pgaudit_log_leaves_variables:
  "vars_after (check_pgaudit_log malloc_ok newVal extra g) = g \<and>
   auditLogBitmap (vars_after (check_pgaudit_log malloc_ok newVal extra g)) = auditLogBitmap g \<and>
   auditLogCatalog (vars_after (check_pgaudit_log malloc_ok newVal extra g)) = auditLogCatalog g"
proof -
  have "vars_after (check_pgaudit_log malloc_ok newVal extra g) = g"
    unfolding check_pgaudit_log_def Let_def
    by (cases "SplitIdentifierString (pstrdup newVal) CHR '',''")
      (simp_all split: option.splits)
  then show ?thesis by simp
qed

text \<open>
  C3: \<^verbatim>\<open>assign_pgaudit_log\<close> with a candidate sets \<^verbatim>\<open>auditLogBitmap\<close> to exactly the candidate
  and changes nothing else; with a null \<^verbatim>\<open>extra\<close> it leaves the variables unchanged. It has
  no failing path: it is a total function into the variables.
\<close>

theorem assign_pgaudit_log_sets_bitmap:
  "assign_pgaudit_log newVal (Some flags) g = g\<lparr>auditLogBitmap := flags\<rparr> \<and>
   auditLogBitmap (assign_pgaudit_log newVal (Some flags) g) = flags \<and>
   auditLogCatalog (assign_pgaudit_log newVal (Some flags) g) = auditLogCatalog g \<and>
   auditLog (assign_pgaudit_log newVal (Some flags) g) = auditLog g \<and>
   assign_pgaudit_log newVal None g = g"
  by (simp add: assign_pgaudit_log_def)

text \<open>
  C4: the tokens are folded from left to right: running the loop over \<open>ts @ us\<close> is running
  it over \<open>ts\<close> and then, from the bitmap reached, over \<open>us\<close>. So a later token removes
  bits that an earlier one added: \<^verbatim>\<open>READ,WRITE,-READ\<close> is accepted with exactly the bit of
  WRITE (32), whereas \<^verbatim>\<open>-READ,READ,WRITE\<close> gives the bits of READ and WRITE.
\<close>

theorem check_folds_left_to_right:
  "fold_tokens (ts @ us) flags =
     (case fold_tokens ts flags of None \<Rightarrow> None | Some f \<Rightarrow> fold_tokens us f) \<and>
   check_pgaudit_log True ''READ,WRITE,-READ'' extra g =
     \<lparr>returned = True, extra_after = Some LOG_WRITE, errdetail = None, vars_after = g\<rparr> \<and>
   LOG_WRITE = 32 \<and>
   check_pgaudit_log True ''-READ,READ,WRITE'' extra g =
     \<lparr>returned = True, extra_after = Some (LOG_READ OR LOG_WRITE), errdetail = None,
      vars_after = g\<rparr>"
  by (simp only: fold_tokens_append [of ts us flags] check_order_eval bits_eval simp_thms)

text \<open>
  C5 (as amended): when the list of tokens of a setting holds a token that, without its
  leading \<^verbatim>\<open>-\<close>, spells none of the nine names in any mix of upper and lower case, the hook
  returns \<^verbatim>\<open>false\<close>, leaves \<^verbatim>\<open>*extra\<close> as it was (no candidate is handed over) and leaves
  the variables unchanged. It sets no detail message: the hook itself does not report the
  text of the token.
\<close>

theorem check_unknown_token_fails:
  assumes split: "SplitIdentifierString (pstrdup newVal) CHR '','' = Some tokens"
    and tok: "token \<in> set tokens"
    and unknown: "map ascii_upper (without_marker token) \<notin> set class_names"
  shows "check_pgaudit_log malloc_ok newVal extra g =
     \<lparr>returned = False, extra_after = extra, errdetail = None, vars_after = g\<rparr>"
proof -
  have "NUL \<notin> set token"
    using SplitIdentifierString_no_NUL [OF NUL_notin_pstrdup split tok] .
  then have "NUL \<notin> set (without_marker token)"
    by (auto simp: without_marker_def dest: in_set_dropD)
  with unknown have "token_class (strip_sign token) = None"
    by (simp add: token_class_None_iff strip_sign_without_marker)
  with tok have "fold_tokens tokens 0 = None"
    by (rule fold_tokens_unknown)
  with split show ?thesis
    by (simp add: check_pgaudit_log_def)
qed

theorem check_unknown_token_fails_witness:
  "SplitIdentifierString (pstrdup ''DDL,-bogus,READ'') CHR '','' =
     Some [''ddl'', ''-bogus'', ''read''] \<and>
   ''-bogus'' \<in> set [''ddl'', ''-bogus'', ''read''] \<and>
   map ascii_upper (without_marker ''-bogus'') \<notin> set class_names \<and>
   check_pgaudit_log True ''DDL,-bogus,READ'' (Some 5) initial_vars =
     \<lparr>returned = False, extra_after = Some 5, errdetail = None, vars_after = initial_vars\<rparr>"
proof -
  have h1: "SplitIdentifierString (pstrdup ''DDL,-bogus,READ'') CHR '','' =
      Some [''ddl'', ''-bogus'', ''read'']"
    by code_simp
  have h2: "''-bogus'' \<in> set [''ddl'', ''-bogus'', ''read'']"
    by simp
  have "map ascii_upper (without_marker ''-bogus'') = ''BOGUS''"
    by code_simp
  moreover have "''BOGUS'' \<notin> set class_names"
    by (simp add: class_names_def CLASS_NONE_def CLASS_ALL_def CLASS_DDL_def
        CLASS_FUNCTION_def CLASS_MISC_def CLASS_MISC_SET_def CLASS_READ_def CLASS_ROLE_def
        CLASS_WRITE_def)
  ultimately have h3: "map ascii_upper (without_marker ''-bogus'') \<notin> set class_names"
    by (simp only: simp_thms)
  have "check_pgaudit_log True ''DDL,-bogus,READ'' (Some 5) initial_vars =
     \<lparr>returned = False, extra_after = Some 5, errdetail = None, vars_after = initial_vars\<rparr>"
    by (rule check_unknown_token_fails [OF h1 h2 h3])
  with h1 h2 h3 show ?thesis
    by (intro conjI)
qed

text \<open>
  C5 as stated fails: on the setting \<^verbatim>\<open>bogus\<close> the hook returns \<^verbatim>\<open>false\<close> without any detail
  message, so nothing it leaves behind names the token.
\<close>

theorem check_unknown_token_not_reported:
  "check_pgaudit_log True ''bogus'' None initial_vars =
     \<lparr>returned = False, extra_after = None, errdetail = None, vars_after = initial_vars\<rparr>"
  by code_simp

text \<open>
  C6: the setting \<^verbatim>\<open>MISC\<close> is accepted with the bits of MISC and of MISC_SET and no other
  (4 + 64), the setting \<^verbatim>\<open>MISC_SET\<close> with the bit of MISC_SET alone (64). MISC is the only
  name with two bits: each of DDL, FUNCTION, MISC_SET, READ, ROLE and WRITE is accepted with
  one bit, \<open>1 << k\<close> for its own \<open>k\<close>.
\<close>

theorem check_misc_is_compound:
  "check_pgaudit_log True ''MISC'' extra g =
     \<lparr>returned = True, extra_after = Some (LOG_MISC OR LOG_MISC_SET), errdetail = None,
      vars_after = g\<rparr> \<and>
   LOG_MISC OR LOG_MISC_SET = push_bit 2 1 OR push_bit 6 1 \<and>
   check_pgaudit_log True ''MISC_SET'' extra g =
     \<lparr>returned = True, extra_after = Some (push_bit 6 1), errdetail = None, vars_after = g\<rparr> \<and>
   check_pgaudit_log True ''DDL'' extra g =
     \<lparr>returned = True, extra_after = Some (push_bit 0 1), errdetail = None, vars_after = g\<rparr> \<and>
   check_pgaudit_log True ''FUNCTION'' extra g =
     \<lparr>returned = True, extra_after = Some (push_bit 1 1), errdetail = None, vars_after = g\<rparr> \<and>
   check_pgaudit_log True ''READ'' extra g =
     \<lparr>returned = True, extra_after = Some (push_bit 3 1), errdetail = None, vars_after = g\<rparr> \<and>
   check_pgaudit_log True ''ROLE'' extra g =
     \<lparr>returned = True, extra_after = Some (push_bit 4 1), errdetail = None, vars_after = g\<rparr> \<and>
   check_pgaudit_log True ''WRITE'' extra g =
     \<lparr>returned = True, extra_after = Some (push_bit 5 1), errdetail = None, vars_after = g\<rparr>"
  by (simp only: check_names_eval LOG_DDL_def LOG_FUNCTION_def LOG_MISC_def LOG_READ_def
      LOG_ROLE_def LOG_WRITE_def LOG_MISC_SET_def simp_thms)

text \<open>
  C7: the setting \<^verbatim>\<open>ALL\<close> is accepted with every bit set, the setting \<^verbatim>\<open>NONE\<close> with the
  bitmap 0, and \<^verbatim>\<open>ALL,-WRITE\<close> with every bit but the one of WRITE.
\<close>

theorem check_all_and_none:
  "check_pgaudit_log True ''ALL'' extra g =
     \<lparr>returned = True, extra_after = Some (NOT 0), errdetail = None, vars_after = g\<rparr> \<and>
   check_pgaudit_log True ''NONE'' extra g =
     \<lparr>returned = True, extra_after = Some 0, errdetail = None, vars_after = g\<rparr> \<and>
   check_pgaudit_log True ''ALL,-WRITE'' extra g =
     \<lparr>returned = True, extra_after = Some (NOT LOG_WRITE), errdetail = None, vars_after = g\<rparr>"
proof -
  have "LOG_ALL AND NOT LOG_WRITE = NOT LOG_WRITE"
    by (simp add: bits_eval)
  then show ?thesis
    by (simp add: check_meta_eval bits_eval LOG_NONE_def)
qed

text \<open>
  C8: the names are recognised in any mix of upper and lower case. For each of the nine
  names, a setting that spells the name in mixed case (its upper-casing is the name) has the
  outcome of the name as the macro writes it; \<^verbatim>\<open>ddl\<close>, \<^verbatim>\<open>DDL\<close> and \<^verbatim>\<open>Ddl\<close> are all accepted
  with exactly the bit of DDL.
\<close>

theorem check_case_insensitive:
  "(name \<in> set class_names \<and> map ascii_upper s = name \<longrightarrow>
      check_pgaudit_log malloc_ok s extra g = check_pgaudit_log malloc_ok name extra g) \<and>
   check_pgaudit_log True ''ddl'' extra g =
     \<lparr>returned = True, extra_after = Some LOG_DDL, errdetail = None, vars_after = g\<rparr> \<and>
   check_pgaudit_log True ''DDL'' extra g =
     \<lparr>returned = True, extra_after = Some LOG_DDL, errdetail = None, vars_after = g\<rparr> \<and>
   check_pgaudit_log True ''Ddl'' extra g =
     \<lparr>returned = True, extra_after = Some LOG_DDL, errdetail = None, vars_after = g\<rparr>"
  using check_spelling [of name s malloc_ok extra g]
  by (simp only: check_ddl_spellings_eval check_names_eval simp_thms) blast

theorem check_case_insensitive_witness:
  "''MISC_SET'' \<in> set class_names \<and> map ascii_upper ''mIsc_SeT'' = ''MISC_SET'' \<and>
   check_pgaudit_log True ''mIsc_SeT'' None initial_vars =
     check_pgaudit_log True ''MISC_SET'' None initial_vars \<and>
   check_pgaudit_log True ''mIsc_SeT'' None initial_vars =
     \<lparr>returned = True, extra_after = Some LOG_MISC_SET, errdetail = None,
      vars_after = initial_vars\<rparr>"
proof -
  have h1: "''MISC_SET'' \<in> set class_names"
    by (simp add: class_names_def CLASS_MISC_SET_def)
  have h2: "map ascii_upper ''mIsc_SeT'' = ''MISC_SET''"
    by code_simp
  from check_case_insensitive [of "''MISC_SET''" "''mIsc_SeT''" True None initial_vars] h1 h2
  have "check_pgaudit_log True ''mIsc_SeT'' None initial_vars =
      check_pgaudit_log True ''MISC_SET'' None initial_vars"
    by blast
  with h1 h2 show ?thesis
    by (simp add: check_names_eval)
qed

text \<open>
  C9: the token \<^verbatim>\<open>none\<close> is a neutral element of the fold and does not end it. Anywhere in
  the list of tokens, \<^verbatim>\<open>none\<close> adds no bit and \<^verbatim>\<open>-none\<close> removes none: the loop gives what
  it gives on the list without that token. The settings \<^verbatim>\<open>DDL,NONE\<close> and \<^verbatim>\<open>DDL,-NONE\<close> are
  accepted with exactly the bit of DDL.
\<close>

theorem none_is_neutral_in_fold:
  "fold_tokens (ts @ ''none'' # us) flags = fold_tokens (ts @ us) flags \<and>
   fold_tokens (ts @ ''-none'' # us) flags = fold_tokens (ts @ us) flags \<and>
   check_pgaudit_log True ''DDL,NONE'' extra g =
     \<lparr>returned = True, extra_after = Some LOG_DDL, errdetail = None, vars_after = g\<rparr> \<and>
   check_pgaudit_log True ''DDL,-NONE'' extra g =
     \<lparr>returned = True, extra_after = Some LOG_DDL, errdetail = None, vars_after = g\<rparr>"
  by (simp only: fold_tokens_append [of ts] none_step check_meta_eval simp_thms)


end
